theory Spec2Isabelle
  imports Main "HOL-Library.Word"
begin

unbundle bit_operations_syntax

section \<open>The rendezvous store of THD (torch/lib/THD/base/data_channels/Store.cpp)\<close>

subsection \<open>Wire values\<close>

text \<open>
  \<^verbatim>\<open>enum class QueryType : std::uint8_t { SET, GET, WAIT, STOP_WAITING }\<close>.
  The coordinator reads the query type as one raw byte, so it is kept as a byte here:
  any of the 256 values can arrive.
\<close>

definition SET :: "8 word" where "SET = 0"
definition GET :: "8 word" where "GET = 1"
definition WAIT :: "8 word" where "WAIT = 2"
definition STOP_WAITING :: "8 word" where "STOP_WAITING = 3"

text \<open>
  What the \<^verbatim>\<open>recv_*\<close> calls of \<^verbatim>\<open>query\<close> deliver for one request: the query type
  byte, and then the fields the branch for that byte reads: \<open>key\<close> for the
  \<^verbatim>\<open>recv_string\<close> of SET and GET, \<open>data\<close> for the \<^verbatim>\<open>recv_vector<char>\<close> of SET,
  \<open>keys\<close> for the \<^verbatim>\<open>nargs\<close> strings of WAIT. A branch ignores the fields it does not read.
  The transport helpers of ChannelUtils are external: every \<^verbatim>\<open>recv\<close> and \<^verbatim>\<open>send\<close> is
  taken to succeed.
\<close>

record request =
  qt :: "8 word"
  key :: string
  data :: "char list"
  keys :: "string list"

text \<open>
  What the coordinator writes to a socket: \<^verbatim>\<open>send_value<QueryType>\<close> sends one byte,
  \<^verbatim>\<open>send_vector\<close> a length-prefixed blob. A sent message is paired with the index of
  the connection whose socket it is written to.
\<close>

datatype reply = Value "8 word" | Vector "char list"

type_synonym sent = "(nat \<times> reply) list"

datatype error =
    Out_Of_Range    \<comment> \<open>\<^verbatim>\<open>_store.at(key)\<close> on a missing key\<close>
  | Runtime_Error   \<comment> \<open>\<^verbatim>\<open>throw std::runtime_error(...)\<close>\<close>

subsection \<open>The coordinator's state\<close>

text \<open>
  The members of \<^verbatim>\<open>Store::StoreDeamon\<close> that \<^verbatim>\<open>query\<close> uses. Store.hpp, which declares
  them, is not among the sources: the element type of \<^verbatim>\<open>_keys_awaited\<close> is a machine
  integer, taken as a word \<open>'a word\<close> whose width \<open>'a\<close> is a parameter (decrement wraps
  around); the record is instantiated at \<open>'c = 'a word\<close>.
  A connection is named by its index in \<^verbatim>\<open>_sockets\<close>.
\<close>

record 'c StoreDeamon =
  store :: "string \<rightharpoonup> char list"
  waiting :: "string \<rightharpoonup> nat list"
  keys_awaited :: "'c list"

text \<open>The constructor: \<^verbatim>\<open>_keys_awaited(world_size, 0)\<close>, both maps empty.\<close>

definition StoreDeamon_init :: "nat \<Rightarrow> 'a::len word StoreDeamon" where
  "StoreDeamon_init world_size =
     \<lparr>store = Map.empty, waiting = Map.empty, keys_awaited = replicate world_size 0\<rparr>"

subsection \<open>checkAndUpdate\<close>

text \<open>
  The loop erases from \<^verbatim>\<open>keys\<close> every key that is in the store and clears \<^verbatim>\<open>ret\<close> at
  every key that is not. The result is the flag and the keys that are left.
\<close>

fun checkAndUpdate :: "(string \<rightharpoonup> char list) \<Rightarrow> string list \<Rightarrow> bool \<times> string list" where
  "checkAndUpdate st [] = (True, [])"
| "checkAndUpdate st (k # ks) =
     (case checkAndUpdate st ks of (ret, ks') \<Rightarrow>
        if st k = None then (False, k # ks') else (ret, ks'))"

subsection \<open>query\<close>

text \<open>
  The loop of the SET branch over \<^verbatim>\<open>to_wake->second\<close>:
  \<^verbatim>\<open>if (--_keys_awaited[proc] == 0) send_value(_sockets[proc], STOP_WAITING)\<close>.
  Only indices below \<^verbatim>\<open>world_size\<close> are ever pushed on a waiter list, so the
  subscript is in range in every state the coordinator reaches (\<open>waiters_in_range\<close> below).
\<close>

fun wake :: "nat list \<Rightarrow> 'a::len word list \<Rightarrow> 'a word list \<times> sent" where
  "wake [] ka = (ka, [])"
| "wake (proc # procs) ka =
     (let ka' = ka[proc := ka ! proc - 1];
          out = (if ka' ! proc = 0 then [(proc, Value STOP_WAITING)] else [])
      in case wake procs ka' of (ka'', outs) \<Rightarrow> (ka'', out @ outs))"

text \<open>
  The loop of the WAIT branch: \<^verbatim>\<open>_waiting[key].push_back(rank)\<close> for each key left,
  where \<^verbatim>\<open>operator[]\<close> creates an empty list for a key that has none.
\<close>

fun register :: "nat \<Rightarrow> string list \<Rightarrow> (string \<rightharpoonup> nat list) \<Rightarrow> (string \<rightharpoonup> nat list)" where
  "register rank [] w = w"
| "register rank (k # ks) w =
     register rank ks (w(k \<mapsto> (case w k of None \<Rightarrow> [] | Some l \<Rightarrow> l) @ [rank]))"

definition query ::
  "nat \<Rightarrow> request \<Rightarrow> 'a::len word StoreDeamon \<Rightarrow> error + ('a word StoreDeamon \<times> sent)" where
  "query rank req s =
     (if qt req = SET then
        (let s1 = s\<lparr>store := (store s)(key req \<mapsto> data req)\<rparr>
         in case waiting s1 (key req) of
              None \<Rightarrow> Inr (s1, [])
            | Some procs \<Rightarrow>
                (case wake procs (keys_awaited s1) of (ka, out) \<Rightarrow>
                   Inr (s1\<lparr>keys_awaited := ka, waiting := (waiting s1)(key req := None)\<rparr>, out)))
      else if qt req = GET then
        (case store s (key req) of
           None \<Rightarrow> Inl Out_Of_Range
         | Some v \<Rightarrow> Inr (s, [(rank, Vector v)]))
      else if qt req = WAIT then
        (case checkAndUpdate (store s) (keys req) of (ret, ks) \<Rightarrow>
           if ret then Inr (s, [(rank, Value STOP_WAITING)])
           else Inr (s\<lparr>waiting := register rank ks (waiting s),
                       keys_awaited := (keys_awaited s)[rank := of_nat (length ks)]\<rparr>, []))
      else Inl Runtime_Error)"

text \<open>
  The requests the coordinator serves one after another, each with the index of the
  connection it is read from: a \<^verbatim>\<open>query\<close> that throws ends the service, and nothing
  after it is served.
\<close>

fun queries ::
  "(nat \<times> request) list \<Rightarrow> 'a::len word StoreDeamon \<Rightarrow> error + ('a word StoreDeamon \<times> sent)" where
  "queries [] s = Inr (s, [])"
| "queries ((rank, req) # rest) s =
     (case query rank req s of
        Inl e \<Rightarrow> Inl e
      | Inr (s', out) \<Rightarrow>
          (case queries rest s' of
             Inl e \<Rightarrow> Inl e
           | Inr (s'', outs) \<Rightarrow> Inr (s'', out @ outs)))"

subsection \<open>deamon\<close>

text \<open>
  One entry of the array \<^verbatim>\<open>fds\<close> after \<^verbatim>\<open>poll\<close> has returned: the \<^verbatim>\<open>revents\<close> bits, and
  in \<open>input\<close> the request that \<^verbatim>\<open>query\<close> reads from that socket when it is called.
  \<^verbatim>\<open>POLLIN\<close> is \<^verbatim>\<open>0x0001\<close> in \<^verbatim>\<open><poll.h>\<close>.
\<close>

record pollfd =
  revents :: "16 word"
  input :: request

definition POLLIN :: "16 word" where "POLLIN = 1"

text \<open>
  How the loop stands: \<open>Polling\<close> when it is back in \<^verbatim>\<open>poll\<close> (which waits without
  timeout), \<open>Finished\<close> when the \<^verbatim>\<open>catch (...)\<close> has set \<^verbatim>\<open>finished\<close> and the loop has
  been left, \<open>Aborted\<close> when \<^verbatim>\<open>std::system_error(ECONNABORTED)\<close> has been thrown out
  of the loop.
\<close>

datatype status = Polling | Finished | Aborted

text \<open>
  The \<^verbatim>\<open>for\<close> loop over the connections after one return of \<^verbatim>\<open>poll\<close>, from index \<open>rank\<close>
  on: the list holds the entries \<^verbatim>\<open>fds[rank]\<close>, \<^verbatim>\<open>fds[rank + 1]\<close>, ...
\<close>

fun poll_round ::
  "nat \<Rightarrow> pollfd list \<Rightarrow> 'a::len word StoreDeamon \<Rightarrow> status \<times> 'a word StoreDeamon \<times> sent" where
  "poll_round rank [] s = (Polling, s, [])"
| "poll_round rank (fd # fds) s =
     (if revents fd = 0 then poll_round (Suc rank) fds s
      else if revents fd XOR POLLIN \<noteq> 0 then (Aborted, s, [])
      else case query rank (input fd) s of
             Inl e \<Rightarrow> (Finished, s, [])
           | Inr (s', out) \<Rightarrow>
               (case poll_round (Suc rank) fds s' of (st, s'', outs) \<Rightarrow> (st, s'', out @ outs)))"

text \<open>
  The \<^verbatim>\<open>while (!finished)\<close> loop, run on the successive results of \<^verbatim>\<open>poll\<close>. Each result
  has one entry per socket, and the \<^verbatim>\<open>for\<close> loop visits the indices below
  \<^verbatim>\<open>_sockets.size()\<close>, which is \<^verbatim>\<open>world_size\<close>, the size of \<^verbatim>\<open>_keys_awaited\<close>. When the
  results are used up the loop is waiting in \<^verbatim>\<open>poll\<close>. (Listening and accepting the
  connections, which come before the loop, are not part of the model.)
\<close>

fun deamon ::
  "pollfd list list \<Rightarrow> 'a::len word StoreDeamon \<Rightarrow> status \<times> 'a word StoreDeamon \<times> sent" where
  "deamon [] s = (Polling, s, [])"
| "deamon (fds # polls) s =
     (case poll_round 0 (take (length (keys_awaited s)) fds) s of
        (Polling, s', out) \<Rightarrow>
          (case deamon polls s' of (st, s'', outs) \<Rightarrow> (st, s'', out @ outs))
      | (Finished, s', out) \<Rightarrow> (Finished, s', out)
      | (Aborted, s', out) \<Rightarrow> (Aborted, s', out))"

text \<open>
  The requests that the loop reads in its rounds, in the order in which it reads them, as
  long as no round throws: in each round, those of the sockets with events, by ascending
  index.
\<close>

fun read_in_round :: "nat \<Rightarrow> pollfd list \<Rightarrow> (nat \<times> request) list" where
  "read_in_round rank [] = []"
| "read_in_round rank (fd # fds) =
     (if revents fd = 0 then [] else [(rank, input fd)]) @ read_in_round (Suc rank) fds"

definition read_by_deamon :: "nat \<Rightarrow> pollfd list list \<Rightarrow> (nat \<times> request) list" where
  "read_by_deamon world_size polls =
     concat (map (\<lambda>fds. read_in_round 0 (take world_size fds)) polls)"

subsection \<open>The participant: Store::set, Store::wait, Store::get\<close>

text \<open>
  A participant and the coordinator, taken together. \<open>coordinator\<close> is the state of the
  \<^verbatim>\<open>StoreDeamon\<close>, \<open>finished\<close> says that its loop has been left, and \<open>unread g r\<close> is what
  has been written to the socket of connection \<open>r\<close> and not yet read by its participant.
  The participant's socket is read in whole messages.
\<close>

record 'c group =
  coordinator :: "'c StoreDeamon"
  finished :: bool
  unread :: "nat \<Rightarrow> reply list"

definition group_init :: "nat \<Rightarrow> 'a::len word group" where
  "group_init world_size =
     \<lparr>coordinator = StoreDeamon_init world_size, finished = False, unread = (\<lambda>r. [])\<rparr>"

fun deliver :: "sent \<Rightarrow> (nat \<Rightarrow> reply list) \<Rightarrow> (nat \<Rightarrow> reply list)" where
  "deliver [] u = u"
| "deliver ((r, m) # out) u = deliver out (u(r := u r @ [m]))"

text \<open>
  A request written by participant \<open>rank\<close> and served by the coordinator at once: the
  loop calls \<^verbatim>\<open>query(rank)\<close>, and an exception there sets \<^verbatim>\<open>finished\<close>. After that no
  request is read any more.
\<close>

definition submit :: "nat \<Rightarrow> request \<Rightarrow> 'a::len word group \<Rightarrow> 'a word group" where
  "submit rank req g =
     (if finished g then g
      else case query rank req (coordinator g) of
             Inl e \<Rightarrow> g\<lparr>finished := True\<rparr>
           | Inr (s', out) \<Rightarrow> g\<lparr>coordinator := s', unread := deliver out (unread g)\<rparr>)"

text \<open>
  The result of a blocking call: it returns a value, or it throws, or it is still
  waiting in \<^verbatim>\<open>recv\<close> because nothing has been written to its socket.
\<close>

datatype 'r outcome = Returned 'r | Blocked | Failed

text \<open>The three requests as the participant writes them on its socket.\<close>

definition SET_request :: "string \<Rightarrow> char list \<Rightarrow> request" where
  "SET_request k v = \<lparr>qt = SET, key = k, data = v, keys = []\<rparr>"

definition GET_request :: "string \<Rightarrow> request" where
  "GET_request k = \<lparr>qt = GET, key = k, data = [], keys = []\<rparr>"

definition WAIT_request :: "string list \<Rightarrow> request" where
  "WAIT_request ks = \<lparr>qt = WAIT, key = [], data = [], keys = ks\<rparr>"

definition Store_set :: "nat \<Rightarrow> string \<Rightarrow> char list \<Rightarrow> 'a::len word group \<Rightarrow> 'a word group" where
  "Store_set rank k v g = submit rank (SET_request k v) g"

definition Store_wait ::
  "nat \<Rightarrow> string list \<Rightarrow> 'a::len word group \<Rightarrow> unit outcome \<times> 'a word group" where
  "Store_wait rank ks g =
     (let g1 = submit rank (WAIT_request ks) g
      in case unread g1 rank of
           [] \<Rightarrow> (Blocked, g1)
         | qr # rest \<Rightarrow>
             (if qr \<noteq> Value STOP_WAITING then Failed else Returned (),
              g1\<lparr>unread := (unread g1)(rank := rest)\<rparr>))"

definition Store_get ::
  "nat \<Rightarrow> string \<Rightarrow> 'a::len word group \<Rightarrow> char list outcome \<times> 'a word group" where
  "Store_get rank k g =
     (case Store_wait rank [k] g of
        (Blocked, g1) \<Rightarrow> (Blocked, g1)
      | (Failed, g1) \<Rightarrow> (Failed, g1)
      | (Returned _, g1) \<Rightarrow>
          (let g2 = submit rank (GET_request k) g1
           in case unread g2 rank of
                [] \<Rightarrow> (Blocked, g2)
              | Vector v # rest \<Rightarrow> (Returned v, g2\<lparr>unread := (unread g2)(rank := rest)\<rparr>)
              | Value b # rest \<Rightarrow> (Failed, g2\<lparr>unread := (unread g2)(rank := rest)\<rparr>)))"

subsection \<open>Notions used in the statements\<close>

text \<open>The waiter list of a key, empty when \<^verbatim>\<open>_waiting\<close> has no entry for it.\<close>

definition waiters :: "'c StoreDeamon \<Rightarrow> string \<Rightarrow> nat list" where
  "waiters s k = (case waiting s k of None \<Rightarrow> [] | Some procs \<Rightarrow> procs)"

text \<open>Every entry of a waiter list is the index of a connection.\<close>

definition waiters_in_range :: "'a::len word StoreDeamon \<Rightarrow> bool" where
  "waiters_in_range s \<longleftrightarrow> (\<forall>k. \<forall>proc \<in> set (waiters s k). proc < length (keys_awaited s))"

text \<open>
  The number of occurrences of connection \<open>r\<close> in all the waiter lists together.
  \<^verbatim>\<open>_waiting\<close> has finitely many entries.
\<close>

definition occurrences :: "(string \<rightharpoonup> nat list) \<Rightarrow> nat \<Rightarrow> nat" where
  "occurrences w r = (\<Sum>k \<in> dom w. count_list (the (w k)) r)"

text \<open>The counter of every connection is the number of its occurrences in the waiter lists.\<close>

definition counters_match :: "'a::len word StoreDeamon \<Rightarrow> bool" where
  "counters_match s \<longleftrightarrow>
     finite (dom (waiting s)) \<and>
     (\<forall>r < length (keys_awaited s). unat (keys_awaited s ! r) = occurrences (waiting s) r)"

text \<open>The key that a request sets, and the keys set by the requests of a sequence.\<close>

definition set_by :: "request \<Rightarrow> string set" where
  "set_by req = (if qt req = SET then {key req} else {})"

definition keys_set :: "(nat \<times> request) list \<Rightarrow> string set" where
  "keys_set reqs = set [key rq. (q, rq) \<leftarrow> reqs, qt rq = SET]"

text \<open>
  Connection \<open>r\<close> is registered for a WAIT whose absent keys were \<open>ks\<close>, and of these the
  keys in \<open>P\<close> have not been set since: \<open>r\<close> stands in the waiter list of each key of \<open>P\<close>
  as often as the key is named in \<open>ks\<close> and in no other list, and its counter is the number
  of entries of \<open>ks\<close> that are in \<open>P\<close>.
\<close>

definition pending_for :: "'a::len word StoreDeamon \<Rightarrow> nat \<Rightarrow> string list \<Rightarrow> string set \<Rightarrow> bool" where
  "pending_for s r ks P \<longleftrightarrow>
     r < length (keys_awaited s) \<and> P \<subseteq> set ks \<and>
     (\<forall>k. count_list (waiters s k) r = (if k \<in> P then count_list ks k else 0)) \<and>
     unat (keys_awaited s ! r) = length [k \<leftarrow> ks. k \<in> P]"

subsection \<open>Example states and runs\<close>

text \<open>
  A coordinator for two connections in which key \<open>a\<close> is set and connection 1 waits for
  key \<open>b\<close>, with 64-bit counters; used to instantiate the theorems.
\<close>

definition example_deamon :: "64 word StoreDeamon" where
  "example_deamon =
     \<lparr>store = [''a'' \<mapsto> ''1''], waiting = [''b'' \<mapsto> [1]], keys_awaited = [0, 1]\<rparr>"

definition example_group :: "64 word group" where
  "example_group = \<lparr>coordinator = example_deamon, finished = False, unread = (\<lambda>r. [])\<rparr>"

text \<open>Entries of \<^verbatim>\<open>fds\<close>: a socket with nothing to read, and one with a request to read.\<close>

definition idle :: pollfd where
  "idle = \<lparr>revents = 0, input = WAIT_request []\<rparr>"

definition ready :: "request \<Rightarrow> pollfd" where
  "ready req = \<lparr>revents = POLLIN, input = req\<rparr>"

text \<open>
  A run of the loop for two connections: connection 0 sets key \<open>a\<close>; in the next round
  connection 0 waits for \<open>a\<close> and connection 1 sends a request that makes \<^verbatim>\<open>query\<close>
  throw (a GET of the missing key \<open>zz\<close>, or the query type 7); later connection 0 would
  set \<open>zz\<close>. \<open>example_served\<close> is the state after the first two requests.
\<close>

definition example_polls :: "pollfd list list" where
  "example_polls = [[ready (SET_request ''a'' ''1''), idle]]"

definition example_fds_GET :: "pollfd list" where
  "example_fds_GET = [ready (WAIT_request [''a'']), ready (GET_request ''zz'')]"

definition example_fds_other :: "pollfd list" where
  "example_fds_other =
     [ready (WAIT_request [''a'']), ready \<lparr>qt = 7, key = [], data = [], keys = []\<rparr>]"

definition example_later :: "pollfd list list" where
  "example_later = [[ready (SET_request ''zz'' ''9''), idle]]"

definition example_served :: "64 word StoreDeamon" where
  "example_served = \<lparr>store = [''a'' \<mapsto> ''1''], waiting = Map.empty, keys_awaited = [0, 0]\<rparr>"

text \<open>
  Requests of connection 1 that follow a WAIT of connection 0 for the keys \<open>A\<close> and \<open>B\<close>.
\<close>

definition example_requests :: "(nat \<times> request) list" where
  "example_requests =
     [(1, SET_request ''A'' ''x''), (1, SET_request ''B'' ''y''), (1, SET_request ''A'' ''z'')]"

section \<open>Properties\<close>

subsection \<open>The loops of query\<close>

lemma checkAndUpdate_eq:
  "checkAndUpdate st ks = (\<forall>k \<in> set ks. st k \<noteq> None, filter (\<lambda>k. st k = None) ks)"
  by (induction ks) auto

lemma register_eq:
  "register rank ks w k =
     (if k \<in> set ks
      then Some ((case w k of None \<Rightarrow> [] | Some l \<Rightarrow> l) @ replicate (count_list ks k) rank)
      else w k)"
  by (induction ks arbitrary: w) (auto simp: replicate_append_same)

lemma wake_length: "length (fst (wake procs ka)) = length ka"
  by (induction procs arbitrary: ka) (auto simp: Let_def case_prod_beta)

lemma wake_nth:
  "r < length ka \<Longrightarrow> fst (wake procs ka) ! r = ka ! r - of_nat (count_list procs r)"
proof (induction procs arbitrary: ka)
  case Nil
  then show ?case by simp
next
  case (Cons p procs)
  then show ?case
    by (auto simp: Let_def case_prod_beta nth_list_update)
qed

lemma wake_sent_values: "snd ` set (snd (wake procs ka)) \<subseteq> {Value STOP_WAITING}"
  by (induction procs arbitrary: ka) (auto simp: Let_def case_prod_beta)

lemma wake_sent_ranks: "fst ` set (snd (wake procs ka)) \<subseteq> set procs"
  by (induction procs arbitrary: ka) (auto simp: Let_def case_prod_beta)


lemma zero_hits_Suc:
  fixes x :: "'a::len word"
  shows "length [j \<leftarrow> [1..<Suc (Suc c)]. x = of_nat j] =
         (if x - 1 = 0 then 1 else 0) + length [j \<leftarrow> [1..<Suc c]. x - 1 = of_nat j]"
proof -
  have "[1..<Suc (Suc c)] = 1 # map Suc [1..<Suc c]"
    by (simp add: map_Suc_upt upt_conv_Cons del: upt_Suc)
  moreover have "\<And>j. (x = of_nat (Suc j)) = (x - 1 = of_nat j)"
    by (auto simp: algebra_simps)
  moreover have "(x = 1) = (x - 1 = 0)"
    by auto
  ultimately show ?thesis
    by (simp add: filter_map comp_def del: upt_Suc)
qed

lemma wake_sent_count:
  "r < length ka \<Longrightarrow>
   count_list (snd (wake procs ka)) (r, Value STOP_WAITING) =
   length [j \<leftarrow> [1..<Suc (count_list procs r)]. ka ! r = of_nat j]"
proof (induction procs arbitrary: ka)
  case Nil
  then show ?case by simp
next
  case (Cons p procs)
  show ?case
  proof (cases "p = r")
    case True
    have "count_list (snd (wake (p # procs) ka)) (r, Value STOP_WAITING) =
          (if ka ! r - 1 = 0 then 1 else 0) +
          count_list (snd (wake procs (ka[r := ka ! r - 1]))) (r, Value STOP_WAITING)"
      using True Cons.prems by (simp add: Let_def case_prod_beta)
    also have "\<dots> = (if ka ! r - 1 = 0 then 1 else 0) +
          length [j \<leftarrow> [1..<Suc (count_list procs r)]. ka ! r - 1 = of_nat j]"
      using Cons.IH [of "ka[r := ka ! r - 1]"] Cons.prems by simp
    also have "\<dots> = length [j \<leftarrow> [1..<Suc (count_list (p # procs) r)]. ka ! r = of_nat j]"
      using True zero_hits_Suc [of "ka ! r" "count_list procs r"] by simp
    finally show ?thesis .
  next
    case False
    then show ?thesis
      using Cons.IH [of "ka[p := ka ! p - 1]"] Cons.prems
      by (simp add: Let_def case_prod_beta)
  qed
qed

lemma unat_sub_of_nat:
  fixes x :: "'a::len word"
  shows "c \<le> unat x \<Longrightarrow> unat (x - of_nat c) = unat x - c"
  by (simp add: unat_sub_if' le_unat_uoi)

lemma eq_of_nat_iff:
  fixes x :: "'a::len word"
  assumes "j \<le> unat x"
  shows "(x = of_nat j) = (unat x = j)"
proof
  assume "x = of_nat j"
  then have "unat x = unat (of_nat j :: 'a word)" by simp
  also have "\<dots> = j" using assms by (rule le_unat_uoi)
  finally show "unat x = j" .
next
  assume "unat x = j"
  then show "x = of_nat j" by auto
qed

lemma length_filter_eq_upt:
  "length [j \<leftarrow> [a..<b]. n = j] = (if a \<le> n \<and> n < b then 1 else 0)"
  by (induction b) auto

lemma zero_hits_no_wrap:
  fixes x :: "'a::len word"
  assumes "c \<le> unat x"
  shows "length [j \<leftarrow> [1..<Suc c]. x = of_nat j] = (if 0 < c \<and> unat x = c then 1 else 0)"
proof -
  have "[j \<leftarrow> [1..<Suc c]. x = of_nat j] = [j \<leftarrow> [1..<Suc c]. unat x = j]"
    using assms by (intro filter_cong refl eq_of_nat_iff) auto
  then have "length [j \<leftarrow> [1..<Suc c]. x = of_nat j] =
             (if 1 \<le> unat x \<and> unat x < Suc c then 1 else 0)"
    by (simp only: length_filter_eq_upt)
  then show ?thesis using assms by auto
qed

subsection \<open>The SET branch\<close>

lemma query_SET_eq:
  assumes "qt req = SET"
  shows "query rank req s =
     Inr (s\<lparr>store := (store s)(key req \<mapsto> data req),
             keys_awaited := fst (wake (waiters s (key req)) (keys_awaited s)),
             waiting := (waiting s)(key req := None)\<rparr>,
          snd (wake (waiters s (key req)) (keys_awaited s)))"
proof (cases "waiting s (key req)")
  case None
  then have "(waiting s)(key req := None) = waiting s"
    by (simp add: fun_upd_idem)
  with None assms show ?thesis
    by (simp add: query_def waiters_def)
next
  case (Some procs)
  with assms show ?thesis
    by (simp add: query_def waiters_def case_prod_beta)
qed

text \<open>
  Claim C4. Processing a SET request never fails. It overwrites the store entry of the key
  with the value and removes the waiter list of the key; the other entries of the store
  and of the waiter lists stay as they are. Every connection \<open>r\<close> has its counter
  decremented once for each occurrence of \<open>r\<close> in the waiter list of the key (with
  wrap-around), and receives one STOP_WAITING for each of these decrements that leaves its
  counter at zero: the \<open>j\<close>-th decrement does so when the counter was \<open>j\<close> before. Nothing
  else is sent, and only to connections of the waiter list.
\<close>

theorem query_SET:
  assumes "qt req = SET"
  shows "\<exists>ka out.
      query rank req s =
        Inr (s\<lparr>store := (store s)(key req \<mapsto> data req),
                keys_awaited := ka,
                waiting := (waiting s)(key req := None)\<rparr>, out) \<and>
      length ka = length (keys_awaited s) \<and>
      (\<forall>r < length ka.
         ka ! r = keys_awaited s ! r - of_nat (count_list (waiters s (key req)) r) \<and>
         count_list out (r, Value STOP_WAITING) =
           length [j \<leftarrow> [1..<Suc (count_list (waiters s (key req)) r)].
                     keys_awaited s ! r = of_nat j]) \<and>
      snd ` set out \<subseteq> {Value STOP_WAITING} \<and>
      fst ` set out \<subseteq> set (waiters s (key req))"
proof -
  let ?w = "wake (waiters s (key req)) (keys_awaited s)"
  have "length (fst ?w) = length (keys_awaited s)"
    by (rule wake_length)
  moreover have "\<forall>r < length (fst ?w).
         fst ?w ! r = keys_awaited s ! r - of_nat (count_list (waiters s (key req)) r) \<and>
         count_list (snd ?w) (r, Value STOP_WAITING) =
           length [j \<leftarrow> [1..<Suc (count_list (waiters s (key req)) r)].
                     keys_awaited s ! r = of_nat j]"
    by (simp add: wake_length wake_nth wake_sent_count del: upt_Suc)
  moreover have "snd ` set (snd ?w) \<subseteq> {Value STOP_WAITING}"
    by (rule wake_sent_values)
  moreover have "fst ` set (snd ?w) \<subseteq> set (waiters s (key req))"
    by (rule wake_sent_ranks)
  ultimately show ?thesis
    using query_SET_eq [OF assms, of rank s] by blast
qed

theorem query_SET_witness:
  "qt (SET_request ''b'' ''2'') = SET \<and> 0 < length (keys_awaited example_deamon) \<and>
   (\<exists>ka out.
      query 0 (SET_request ''b'' ''2'') example_deamon =
        Inr (example_deamon\<lparr>store := (store example_deamon)
                                (key (SET_request ''b'' ''2'') \<mapsto> data (SET_request ''b'' ''2'')),
                keys_awaited := ka,
                waiting := (waiting example_deamon)(key (SET_request ''b'' ''2'') := None)\<rparr>, out) \<and>
      length ka = length (keys_awaited example_deamon) \<and>
      (\<forall>r < length ka.
         ka ! r = keys_awaited example_deamon ! r -
                  of_nat (count_list (waiters example_deamon (key (SET_request ''b'' ''2''))) r) \<and>
         count_list out (r, Value STOP_WAITING) =
           length [j \<leftarrow> [1..<Suc (count_list (waiters example_deamon (key (SET_request ''b'' ''2''))) r)].
                     keys_awaited example_deamon ! r = of_nat j]) \<and>
      snd ` set out \<subseteq> {Value STOP_WAITING} \<and>
      fst ` set out \<subseteq> set (waiters example_deamon (key (SET_request ''b'' ''2''))))"
proof -
  have h: "qt (SET_request ''b'' ''2'') = SET"
    by (simp add: SET_request_def)
  have n: "0 < length (keys_awaited example_deamon)"
    by (simp add: example_deamon_def)
  show ?thesis
    using h n query_SET [OF h, of 0 example_deamon] by simp
qed

subsection \<open>The WAIT branch\<close>

text \<open>
  Claim C3. Processing a WAIT request never fails. The keys named are split into those in
  the store, which are dropped, and the absent ones. When no key is absent, STOP_WAITING is
  sent to the requesting connection and the state stays as it is. Otherwise nothing is
  sent, the index of the connection is appended to the waiter list of each absent key
  (once for each time the key is named), and the counter of the connection is set to the
  number of absent keys.
\<close>

theorem query_WAIT:
  assumes "qt req = WAIT"
  shows "query rank req s =
     (let absent = [k \<leftarrow> keys req. store s k = None]
      in if absent = [] then Inr (s, [(rank, Value STOP_WAITING)])
         else Inr (s\<lparr>waiting := (\<lambda>k. if k \<in> set absent
                                     then Some (waiters s k @ replicate (count_list absent k) rank)
                                     else waiting s k),
                     keys_awaited := (keys_awaited s)[rank := of_nat (length absent)]\<rparr>, []))"
proof -
  have "register rank ks (waiting s) =
        (\<lambda>k. if k \<in> set ks then Some (waiters s k @ replicate (count_list ks k) rank)
              else waiting s k)" for ks
    by (rule ext) (simp add: register_eq waiters_def)
  then show ?thesis
    using assms
    by (simp add: query_def checkAndUpdate_eq SET_def GET_def WAIT_def Let_def filter_empty_conv)
qed

theorem query_WAIT_witness:
  "qt (WAIT_request [''a'', ''c'']) = WAIT \<and>
   (\<exists>s'. query 0 (WAIT_request [''a'', ''c'']) example_deamon = Inr (s', []) \<and>
         waiting s' ''b'' = Some [1] \<and> waiting s' ''c'' = Some [0] \<and>
         keys_awaited s' = [1, 1] \<and> store s' = store example_deamon)"
proof -
  have h: "qt (WAIT_request [''a'', ''c'']) = WAIT"
    by (simp add: WAIT_request_def)
  show ?thesis
    using h query_WAIT [OF h, of 0 example_deamon]
    by (simp add: WAIT_request_def example_deamon_def waiters_def Let_def)
qed

lemmas example_defs =
  idle_def ready_def example_polls_def example_fds_GET_def example_fds_other_def
  example_later_def example_served_def example_deamon_def example_group_def
  StoreDeamon_init_def group_init_def SET_request_def GET_request_def WAIT_request_def
  SET_def GET_def WAIT_def STOP_WAITING_def POLLIN_def

subsection \<open>The branches of query\<close>

lemma query_GET_eq:
  "qt req = GET \<Longrightarrow>
   query rank req s =
     (case store s (key req) of None \<Rightarrow> Inl Out_Of_Range | Some v \<Rightarrow> Inr (s, [(rank, Vector v)]))"
  by (simp add: query_def SET_def GET_def)

lemma query_WAIT_present:
  "qt req = WAIT \<Longrightarrow> \<forall>k \<in> set (keys req). store s k \<noteq> None \<Longrightarrow>
   query rank req s = Inr (s, [(rank, Value STOP_WAITING)])"
  by (simp add: query_def checkAndUpdate_eq SET_def GET_def WAIT_def)

lemma query_WAIT_eq:
  "qt req = WAIT \<Longrightarrow>
   query rank req s =
     (if [k \<leftarrow> keys req. store s k = None] = [] then Inr (s, [(rank, Value STOP_WAITING)])
      else Inr (s\<lparr>waiting := register rank [k \<leftarrow> keys req. store s k = None] (waiting s),
                  keys_awaited := (keys_awaited s)
                    [rank := of_nat (length [k \<leftarrow> keys req. store s k = None])]\<rparr>, []))"
  by (simp add: query_def checkAndUpdate_eq SET_def GET_def WAIT_def filter_empty_conv)

lemma query_other:
  "qt req \<noteq> SET \<Longrightarrow> qt req \<noteq> GET \<Longrightarrow> qt req \<noteq> WAIT \<Longrightarrow> query rank req s = Inl Runtime_Error"
  by (simp add: query_def)

lemma query_length:
  assumes "query rank req s = Inr (s', out)"
  shows "length (keys_awaited s') = length (keys_awaited s)"
proof -
  consider "qt req = SET" | "qt req = GET" | "qt req = WAIT"
    | "qt req \<noteq> SET" "qt req \<noteq> GET" "qt req \<noteq> WAIT"
    by blast
  then show ?thesis
  proof cases
    case 1
    with assms show ?thesis by (auto simp: query_SET_eq wake_length)
  next
    case 2
    with assms show ?thesis by (auto simp: query_GET_eq split: option.splits)
  next
    case 3
    with assms show ?thesis by (auto simp: query_WAIT_eq split: if_splits)
  next
    case 4
    with assms show ?thesis by (simp add: query_other)
  qed
qed

text \<open>
  The subscript \<^verbatim>\<open>_keys_awaited[proc]\<close> of the SET branch is in range: the waiter lists
  hold indices of connections only, from the constructor on.
\<close>

lemma waiters_in_range_init: "waiters_in_range (StoreDeamon_init world_size)"
  by (simp add: waiters_in_range_def waiters_def StoreDeamon_init_def)

lemma waiters_in_range_query:
  assumes "waiters_in_range s" and "rank < length (keys_awaited s)"
    and "query rank req s = Inr (s', out)"
  shows "waiters_in_range s'"
proof -
  consider "qt req = SET" | "qt req = GET" | "qt req = WAIT"
    | "qt req \<noteq> SET" "qt req \<noteq> GET" "qt req \<noteq> WAIT"
    by blast
  then show ?thesis
  proof cases
    case 1
    then have "waiting s' = (waiting s)(key req := None)"
      and "length (keys_awaited s') = length (keys_awaited s)"
      using assms(3) by (auto simp: query_SET_eq wake_length)
    then show ?thesis
      using assms(1) by (auto simp: waiters_in_range_def waiters_def split: if_splits)
  next
    case 2
    with assms have "s' = s" by (auto simp: query_GET_eq split: option.splits)
    with assms show ?thesis by simp
  next
    case 3
    show ?thesis
    proof (cases "[k \<leftarrow> keys req. store s k = None] = []")
      case True
      with 3 assms have "s' = s" by (simp add: query_WAIT_eq)
      with assms show ?thesis by simp
    next
      case False
      with 3 assms(3) have "waiting s' = register rank [k \<leftarrow> keys req. store s k = None] (waiting s)"
        and "length (keys_awaited s') = length (keys_awaited s)"
        by (auto simp: query_WAIT_eq)
      then show ?thesis
        using assms(1,2)
        by (auto simp: waiters_in_range_def waiters_def register_eq split: if_splits option.splits)
    qed
  next
    case 4
    with assms show ?thesis by (simp add: query_other)
  qed
qed

subsection \<open>The participant's calls on keys that are set\<close>

lemma Store_wait_present:
  assumes "\<not> finished g" and "unread g rank = []"
    and "\<forall>k \<in> set ks. store (coordinator g) k \<noteq> None"
  shows "Store_wait rank ks g = (Returned (), g)"
proof -
  have "submit rank (WAIT_request ks) g =
        g\<lparr>unread := (unread g)(rank := [Value STOP_WAITING])\<rparr>"
    using assms by (simp add: submit_def query_WAIT_present WAIT_request_def)
  moreover have "(unread g)(rank := []) = unread g"
    using assms(2) by (simp add: fun_upd_idem)
  ultimately show ?thesis
    by (simp add: Store_wait_def)
qed

lemma Store_get_present:
  assumes "\<not> finished g" and "unread g rank = []"
    and "store (coordinator g) k = Some v"
  shows "Store_get rank k g = (Returned v, g)"
proof -
  have "Store_wait rank [k] g = (Returned (), g)"
    using assms by (simp add: Store_wait_present)
  moreover have "submit rank (GET_request k) g = g\<lparr>unread := (unread g)(rank := [Vector v])\<rparr>"
    using assms by (simp add: submit_def query_GET_eq GET_request_def)
  moreover have "(unread g)(rank := []) = unread g"
    using assms(2) by (simp add: fun_upd_idem)
  ultimately show ?thesis
    by (simp add: Store_get_def)
qed

lemma Store_set_eq:
  "\<not> finished g \<Longrightarrow>
   Store_set rank k v g =
     g\<lparr>coordinator := (coordinator g)
          \<lparr>store := (store (coordinator g))(k \<mapsto> v),
           keys_awaited := fst (wake (waiters (coordinator g) k) (keys_awaited (coordinator g))),
           waiting := (waiting (coordinator g))(k := None)\<rparr>,
       unread := deliver (snd (wake (waiters (coordinator g) k) (keys_awaited (coordinator g))))
                   (unread g)\<rparr>"
  by (simp add: Store_set_def submit_def query_SET_eq SET_request_def)

text \<open>
  Claim C10. A WAIT request that names no key is answered at once: in every state of the
  coordinator, processing it sends STOP_WAITING to the requesting connection, and leaves
  the store, the waiter lists and the counters as they are. So the call \<open>wait([])\<close> of a
  participant with nothing unread on its socket returns, while the coordinator's loop
  runs, and nothing has changed after it.
\<close>

theorem WAIT_no_keys:
  assumes "qt req = WAIT" and "keys req = []"
  shows "query rank req s = Inr (s, [(rank, Value STOP_WAITING)]) \<and>
         (\<not> finished g \<and> unread g rank = [] \<longrightarrow> Store_wait rank [] g = (Returned (), g))"
  using assms by (simp add: query_WAIT_present Store_wait_present)

theorem WAIT_no_keys_witness:
  "qt (WAIT_request []) = WAIT \<and> keys (WAIT_request []) = [] \<and>
   query 0 (WAIT_request []) example_deamon = Inr (example_deamon, [(0, Value STOP_WAITING)]) \<and>
   \<not> finished example_group \<and> unread example_group 0 = [] \<and>
   Store_wait 0 [] example_group = (Returned (), example_group)"
proof -
  have h1: "qt (WAIT_request []) = WAIT" and h2: "keys (WAIT_request []) = []"
    by (simp_all add: WAIT_request_def)
  have h3: "\<not> finished example_group \<and> unread example_group 0 = []"
    by (simp add: example_group_def)
  show ?thesis
    using h1 h2 h3
      WAIT_no_keys [OF h1 h2, where rank = 0 and s = example_deamon and g = example_group]
    by simp
qed

text \<open>
  Claim C2. While the coordinator's loop runs, let a participant \<open>a\<close> call \<open>set(k, v)\<close> and
  the coordinator process this SET; let participant \<open>b\<close> have nothing unread on its socket
  then. The call \<open>wait([k])\<close> of \<open>b\<close> returns, and so does its call \<open>get(k)\<close>, with exactly
  the bytes \<open>v\<close>; neither call changes the state.
\<close>

theorem set_wait_get:
  assumes "\<not> finished g" and "unread (Store_set a k v g) b = []"
  shows "Store_wait b [k] (Store_set a k v g) = (Returned (), Store_set a k v g) \<and>
         Store_get b k (Store_set a k v g) = (Returned v, Store_set a k v g)"
proof -
  have "\<not> finished (Store_set a k v g)" and "store (coordinator (Store_set a k v g)) k = Some v"
    using assms(1) by (simp_all add: Store_set_eq)
  with assms(2) show ?thesis
    by (simp add: Store_wait_present Store_get_present)
qed

theorem set_wait_get_witness:
  "\<not> finished example_group \<and> unread (Store_set 0 ''b'' ''2'' example_group) 0 = [] \<and>
   Store_wait 0 [''b''] (Store_set 0 ''b'' ''2'' example_group) =
     (Returned (), Store_set 0 ''b'' ''2'' example_group) \<and>
   Store_get 0 ''b'' (Store_set 0 ''b'' ''2'' example_group) =
     (Returned ''2'', Store_set 0 ''b'' ''2'' example_group)"
proof -
  have h1: "\<not> finished example_group"
    by (simp add: example_group_def)
  have h2: "unread (Store_set 0 ''b'' ''2'' example_group) 0 = []"
    by (simp add: Store_set_def submit_def query_def example_defs)
  show ?thesis
    using h1 h2 set_wait_get [OF h1 h2] by simp
qed

text \<open>
  Claim C7. Last write wins: while the coordinator's loop runs, after it has processed
  \<open>set(k, v1)\<close> and then \<open>set(k, v2)\<close>, the call \<open>get(k)\<close> of a participant with nothing
  unread on its socket returns \<open>v2\<close>.
\<close>

theorem last_write_wins:
  assumes "\<not> finished g" and "unread (Store_set b k v2 (Store_set a k v1 g)) c = []"
  shows "fst (Store_get c k (Store_set b k v2 (Store_set a k v1 g))) = Returned v2"
proof -
  have "\<not> finished (Store_set a k v1 g)"
    using assms(1) by (simp add: Store_set_eq)
  then have "\<not> finished (Store_set b k v2 (Store_set a k v1 g))"
    and "store (coordinator (Store_set b k v2 (Store_set a k v1 g))) k = Some v2"
    by (simp_all add: Store_set_eq)
  with assms(2) show ?thesis
    by (simp add: Store_get_present)
qed

theorem last_write_wins_witness:
  "\<not> finished example_group \<and>
   unread (Store_set 0 ''a'' ''y'' (Store_set 0 ''a'' ''x'' example_group)) 0 = [] \<and>
   fst (Store_get 0 ''a'' (Store_set 0 ''a'' ''y'' (Store_set 0 ''a'' ''x'' example_group))) =
     Returned ''y''"
proof -
  have h1: "\<not> finished example_group"
    by (simp add: example_group_def)
  have h2: "unread (Store_set 0 ''a'' ''y'' (Store_set 0 ''a'' ''x'' example_group)) 0 = []"
    by (simp add: Store_set_def submit_def query_def example_defs)
  show ?thesis
    using h1 h2 last_write_wins [OF h1 h2] by simp
qed

subsection \<open>The loop of deamon\<close>

lemma poll_round_length:
  "poll_round rank fds s = (st, s', out) \<Longrightarrow> length (keys_awaited s') = length (keys_awaited s)"
proof (induction fds arbitrary: rank s out)
  case Nil
  then show ?case by simp
next
  case (Cons fd fds)
  then show ?case
    by (fastforce simp: query_length split: if_splits sum.splits prod.splits)
qed

lemma poll_round_append:
  "poll_round rank (fds1 @ fds2) s =
     (case poll_round rank fds1 s of
        (Polling, s', out) \<Rightarrow>
          (case poll_round (rank + length fds1) fds2 s' of (st, s'', outs) \<Rightarrow> (st, s'', out @ outs))
      | (Finished, s', out) \<Rightarrow> (Finished, s', out)
      | (Aborted, s', out) \<Rightarrow> (Aborted, s', out))"
proof (induction fds1 arbitrary: rank s)
  case Nil
  then show ?case by (simp split: prod.splits)
next
  case (Cons fd fds1)
  then show ?case
    by (auto split: sum.splits prod.splits status.splits)
qed

lemma deamon_append:
  "deamon (polls1 @ polls2) s =
     (case deamon polls1 s of
        (Polling, s', out) \<Rightarrow>
          (case deamon polls2 s' of (st, s'', outs) \<Rightarrow> (st, s'', out @ outs))
      | (Finished, s', out) \<Rightarrow> (Finished, s', out)
      | (Aborted, s', out) \<Rightarrow> (Aborted, s', out))"
proof (induction polls1 arbitrary: s)
  case Nil
  then show ?case by (simp split: prod.splits)
next
  case (Cons fds polls1)
  then show ?case
    by (auto split: prod.splits status.splits)
qed

lemma deamon_length:
  "deamon polls s = (st, s', out) \<Longrightarrow> length (keys_awaited s') = length (keys_awaited s)"
proof (induction polls arbitrary: s out)
  case Nil
  then show ?case by simp
next
  case (Cons fds polls)
  then show ?case
    by (fastforce dest: poll_round_length split: prod.splits status.splits)
qed

lemma poll_round_throws:
  assumes "poll_round 0 (take rank fds) s1 = (Polling, s, out)"
    and "rank < length fds" and "rank < n"
    and "revents (fds ! rank) = POLLIN"
    and "query rank (input (fds ! rank)) s = Inl e"
  shows "poll_round 0 (take n fds) s1 = (Finished, s, out)"
proof -
  have "rank < length (take n fds)"
    using assms(2,3) by simp
  then have "take n fds =
             take rank (take n fds) @ take n fds ! rank # drop (Suc rank) (take n fds)"
    by (rule id_take_nth_drop)
  moreover have "take rank (take n fds) = take rank fds"
    using assms(3) by (simp add: min_absorb1)
  moreover have "take n fds ! rank = fds ! rank"
    using assms(3) by simp
  ultimately have "take n fds = take rank fds @ fds ! rank # drop (Suc rank) (take n fds)"
    by simp
  then have "poll_round 0 (take n fds) s1 =
             poll_round 0 (take rank fds @ fds ! rank # drop (Suc rank) (take n fds)) s1"
    by simp
  also have "\<dots> = (Finished, s, out)"
    using assms by (simp add: poll_round_append POLLIN_def min_absorb2)
  finally show ?thesis .
qed

lemma deamon_query_throws:
  assumes "deamon (polls @ [take rank fds]) s0 = (Polling, s, out)"
    and "rank < length fds" and "rank < length (keys_awaited s0)"
    and "revents (fds ! rank) = POLLIN"
    and "query rank (input (fds ! rank)) s = Inl e"
  shows "deamon (polls @ fds # later) s0 = (Finished, s, out)"
proof -
  obtain st s1 out1 where d: "deamon polls s0 = (st, s1, out1)"
    by (cases "deamon polls s0") auto
  have st: "st = Polling"
    using assms(1) d by (auto simp: deamon_append split: status.splits)
  have n: "length (keys_awaited s1) = length (keys_awaited s0)"
    using d by (rule deamon_length)
  obtain st2 s2 out2 where p: "poll_round 0 (take rank fds) s1 = (st2, s2, out2)"
    by (cases "poll_round 0 (take rank fds) s1") auto
  have "take (length (keys_awaited s1)) (take rank fds) = take rank fds"
    using assms(3) n by (simp add: min_absorb2)
  then have "deamon [take rank fds] s1 = (Polling, s2, out2) \<and> st2 = Polling
      \<or> st2 \<noteq> Polling \<and> deamon [take rank fds] s1 = (st2, s2, out2)"
    using p by (cases st2) simp_all
  then have p': "st2 = Polling" "s2 = s" "out = out1 @ out2"
    using assms(1) d st by (auto simp: deamon_append)
  have "poll_round 0 (take (length (keys_awaited s1)) fds) s1 = (Finished, s, out2)"
    using p p' assms(2-5) n by (intro poll_round_throws [where e = e and rank = rank]) simp_all
  then have "deamon (fds # later) s1 = (Finished, s, out2)"
    by simp
  then show ?thesis
    using d st p' by (simp add: deamon_append)
qed

text \<open>
  Claim C5. Let the loop have served some rounds and, in the current round, the
  connections before \<open>rank\<close>, and be back at \<open>Polling\<close> had the round ended there. If
  connection \<open>rank\<close> is readable and its request is a GET of a key that is not in the
  store, the loop is left (\<open>Finished\<close>) with the state and the messages as they were
  before that request: whatever the connections after \<open>rank\<close> have sent in this round, and
  whatever arrives in later rounds (\<open>later\<close>), is not served. The error is not confined
  to the connection that sent the GET.
\<close>

theorem GET_missing_key_ends_loop:
  assumes "deamon (polls @ [take rank fds]) s0 = (Polling, s, out)"
    and "rank < length fds" and "rank < length (keys_awaited s0)"
    and "revents (fds ! rank) = POLLIN"
    and "qt (input (fds ! rank)) = GET"
    and "store s (key (input (fds ! rank))) = None"
  shows "deamon (polls @ fds # later) s0 = (Finished, s, out)"
proof -
  have "query rank (input (fds ! rank)) s = Inl Out_Of_Range"
    using assms(5,6) by (simp add: query_GET_eq)
  with assms(1-4) show ?thesis
    by (rule deamon_query_throws)
qed

theorem GET_missing_key_ends_loop_witness:
  "deamon (example_polls @ [take 1 example_fds_GET]) (StoreDeamon_init 2) =
     (Polling, example_served, [(0, Value STOP_WAITING)]) \<and>
   1 < length example_fds_GET \<and>
   1 < length (keys_awaited (StoreDeamon_init 2 :: 64 word StoreDeamon)) \<and>
   revents (example_fds_GET ! 1) = POLLIN \<and>
   qt (input (example_fds_GET ! 1)) = GET \<and>
   store example_served (key (input (example_fds_GET ! 1))) = None \<and>
   deamon (example_polls @ example_fds_GET # example_later) (StoreDeamon_init 2) =
     (Finished, example_served, [(0, Value STOP_WAITING)])"
proof -
  have h1: "deamon (example_polls @ [take 1 example_fds_GET]) (StoreDeamon_init 2) =
     (Polling, example_served, [(0, Value STOP_WAITING)])"
    by (simp add: query_def example_defs numeral_2_eq_2)
  have h2: "1 < length example_fds_GET"
    by (simp add: example_defs)
  have h3: "1 < length (keys_awaited (StoreDeamon_init 2 :: 64 word StoreDeamon))"
    by (simp add: StoreDeamon_init_def)
  have h4: "revents (example_fds_GET ! 1) = POLLIN"
    by (simp add: example_defs)
  have h5: "qt (input (example_fds_GET ! 1)) = GET"
    by (simp add: example_defs)
  have h6: "store example_served (key (input (example_fds_GET ! 1))) = None"
    by (simp add: example_defs)
  show ?thesis
    by (intro conjI h1 h2 h3 h4 h5 h6 GET_missing_key_ends_loop [OF h1 h2 h3 h4 h5 h6])
qed

text \<open>
  Claim C8. In the same situation, if the request of connection \<open>rank\<close> starts with a
  byte that is none of SET, GET and WAIT, the loop is left (\<open>Finished\<close>) with the state
  and the messages as they were before that request, and nothing that the other
  connections have sent or send later is served.
\<close>

theorem unknown_opcode_ends_loop:
  assumes "deamon (polls @ [take rank fds]) s0 = (Polling, s, out)"
    and "rank < length fds" and "rank < length (keys_awaited s0)"
    and "revents (fds ! rank) = POLLIN"
    and "qt (input (fds ! rank)) \<notin> {SET, GET, WAIT}"
  shows "deamon (polls @ fds # later) s0 = (Finished, s, out)"
proof -
  have "query rank (input (fds ! rank)) s = Inl Runtime_Error"
    using assms(5) by (simp add: query_other)
  with assms(1-4) show ?thesis
    by (rule deamon_query_throws)
qed

theorem unknown_opcode_ends_loop_witness:
  "deamon (example_polls @ [take 1 example_fds_other]) (StoreDeamon_init 2) =
     (Polling, example_served, [(0, Value STOP_WAITING)]) \<and>
   1 < length example_fds_other \<and>
   1 < length (keys_awaited (StoreDeamon_init 2 :: 64 word StoreDeamon)) \<and>
   revents (example_fds_other ! 1) = POLLIN \<and>
   qt (input (example_fds_other ! 1)) \<notin> {SET, GET, WAIT} \<and>
   deamon (example_polls @ example_fds_other # example_later) (StoreDeamon_init 2) =
     (Finished, example_served, [(0, Value STOP_WAITING)])"
proof -
  have h1: "deamon (example_polls @ [take 1 example_fds_other]) (StoreDeamon_init 2) =
     (Polling, example_served, [(0, Value STOP_WAITING)])"
    by (simp add: query_def example_defs numeral_2_eq_2)
  have h2: "1 < length example_fds_other"
    by (simp add: example_defs)
  have h3: "1 < length (keys_awaited (StoreDeamon_init 2 :: 64 word StoreDeamon))"
    by (simp add: StoreDeamon_init_def)
  have h4: "revents (example_fds_other ! 1) = POLLIN"
    by (simp add: example_defs)
  have h5: "qt (input (example_fds_other ! 1)) \<notin> {SET, GET, WAIT}"
    by (simp add: example_defs)
  show ?thesis
    by (intro conjI h1 h2 h3 h4 h5 unknown_opcode_ends_loop [OF h1 h2 h3 h4 h5])
qed

lemma queries_append:
  "queries (xs @ ys) s =
     (case queries xs s of
        Inl e \<Rightarrow> Inl e
      | Inr (s', out) \<Rightarrow>
          (case queries ys s' of Inl e \<Rightarrow> Inl e | Inr (s'', outs) \<Rightarrow> Inr (s'', out @ outs)))"
  by (induction xs arbitrary: s) (auto split: sum.splits)

lemma queries_take:
  assumes "queries reqs s = Inr (s', out)"
  shows "\<exists>s'' out'. queries (take n reqs) s = Inr (s'', out')"
proof -
  have "queries (take n reqs @ drop n reqs) s = Inr (s', out)"
    using assms by simp
  then show ?thesis
    by (auto simp: queries_append simp del: append_take_drop_id split: sum.splits)
qed

lemma poll_round_queries:
  "poll_round rank fds s = (Polling, s', out) \<Longrightarrow>
   queries (read_in_round rank fds) s = Inr (s', out)"
proof (induction fds arbitrary: rank s out)
  case Nil
  then show ?case by simp
next
  case (Cons fd fds)
  show ?case
  proof (cases "revents fd = 0")
    case True
    with Cons show ?thesis by simp
  next
    case False
    then obtain s1 out1 where q: "query rank (input fd) s = Inr (s1, out1)"
      using Cons.prems by (auto split: if_splits sum.splits)
    then obtain out2 where p: "poll_round (Suc rank) fds s1 = (Polling, s', out2)"
      and out: "out = out1 @ out2"
      using Cons.prems False by (auto split: if_splits prod.splits)
    from Cons.IH [OF p] q out False show ?thesis by simp
  qed
qed

lemma deamon_queries:
  "deamon polls s = (Polling, s', out) \<Longrightarrow>
   queries (read_by_deamon (length (keys_awaited s)) polls) s = Inr (s', out)"
proof (induction polls arbitrary: s out)
  case Nil
  then show ?case by (simp add: read_by_deamon_def)
next
  case (Cons fds polls)
  let ?n = "length (keys_awaited s)"
  obtain s1 out1 where p: "poll_round 0 (take ?n fds) s = (Polling, s1, out1)"
    using Cons.prems by (auto split: prod.splits status.splits)
  then obtain out2 where d: "deamon polls s1 = (Polling, s', out2)" and out: "out = out1 @ out2"
    using Cons.prems by (auto split: prod.splits)
  have n: "length (keys_awaited s1) = ?n"
    using p by (rule poll_round_length)
  have "queries (read_in_round 0 (take ?n fds)) s = Inr (s1, out1)"
    using p by (rule poll_round_queries)
  moreover have "queries (read_by_deamon ?n polls) s1 = Inr (s', out2)"
    using Cons.IH [OF d] n by simp
  ultimately show ?case
    using out by (simp add: read_by_deamon_def queries_append)
qed

lemma poll_round_idle: "poll_round rank (replicate m idle) s = (Polling, s, [])"
  by (induction m arbitrary: rank) (simp_all add: idle_def)

lemma deamon_one_request:
  assumes "rank < length (keys_awaited s)"
  shows "deamon [(replicate (length (keys_awaited s)) idle)[rank := ready req]] s =
           (case query rank req s of
              Inl e \<Rightarrow> (Finished, s, [])
            | Inr (s', out) \<Rightarrow> (Polling, s', out))"
proof -
  let ?n = "length (keys_awaited s)"
  have "(replicate ?n idle)[rank := ready req] =
        replicate rank idle @ ready req # replicate (?n - Suc rank) idle"
    using assms by (simp add: upd_conv_take_nth_drop)
  moreover have "take ?n ((replicate ?n idle)[rank := ready req]) =
                 (replicate ?n idle)[rank := ready req]"
    by simp
  ultimately have "poll_round 0 (take ?n ((replicate ?n idle)[rank := ready req])) s =
             poll_round 0 (replicate rank idle @ ready req # replicate (?n - Suc rank) idle) s"
    by (simp only:)
  also have "\<dots> = (case query rank req s of
              Inl e \<Rightarrow> (Finished, s, [])
            | Inr (s', out) \<Rightarrow> (Polling, s', out))"
    by (simp add: poll_round_append poll_round_idle ready_def POLLIN_def split: sum.splits)
  finally show ?thesis
    by (simp split: sum.splits)
qed

lemma submit_deamon:
  assumes "\<not> finished g" and "rank < length (keys_awaited (coordinator g))"
  shows "submit rank req g =
     (case deamon [(replicate (length (keys_awaited (coordinator g))) idle)[rank := ready req]]
             (coordinator g) of
        (st, s', out) \<Rightarrow>
          g\<lparr>coordinator := s', finished := st \<noteq> Polling, unread := deliver out (unread g)\<rparr>)"
proof -
  have "\<not> finished g \<Longrightarrow> g\<lparr>finished := False\<rparr> = g"
    by (cases g) simp
  then show ?thesis
    using assms
    by (simp only: deamon_one_request [OF assms(2)] submit_def)
      (auto split: sum.splits)
qed

subsection \<open>The counters and the waiter lists\<close>

lemma occurrences_upd:
  assumes "finite (dom w)"
  shows "occurrences (w(k \<mapsto> v)) r = occurrences (w(k := None)) r + count_list v r"
proof -
  let ?D = "dom (w(k := None))"
  let ?f = "\<lambda>x. count_list (the ((w(k \<mapsto> v)) x)) r"
  let ?g = "\<lambda>x. count_list (the ((w(k := None)) x)) r"
  have D: "finite ?D" "k \<notin> ?D"
    using assms by simp_all
  have dom: "dom (w(k \<mapsto> v)) = insert k ?D"
    by auto
  have "occurrences (w(k \<mapsto> v)) r = sum ?f (dom (w(k \<mapsto> v)))"
    by (simp only: occurrences_def)
  also have "\<dots> = sum ?f (insert k ?D)"
    by (simp only: dom)
  also have "\<dots> = ?f k + sum ?f ?D"
    using D by (rule sum.insert)
  also have "?f k = count_list v r"
    by simp
  also have "sum ?f ?D = sum ?g ?D"
    by (rule sum.cong) auto
  also have "sum ?g ?D = occurrences (w(k := None)) r"
    by (simp only: occurrences_def)
  finally show ?thesis
    by (simp only: add.commute)
qed

lemma occurrences_waiters:
  assumes "finite (dom w)"
  shows "occurrences w r =
         occurrences (w(k := None)) r + count_list (case w k of None \<Rightarrow> [] | Some l \<Rightarrow> l) r"
proof (cases "w k")
  case None
  then have "w(k := None) = w"
    by (simp add: fun_upd_idem)
  with None show ?thesis by simp
next
  case (Some l)
  then have "w(k \<mapsto> l) = w"
    by (simp add: fun_upd_idem)
  with Some occurrences_upd [OF assms, of k l r] show ?thesis by simp
qed

lemma occurrences_push_back:
  assumes "finite (dom w)"
  shows "occurrences (w(k \<mapsto> (case w k of None \<Rightarrow> [] | Some l \<Rightarrow> l) @ [rank])) r =
         occurrences w r + (if r = rank then 1 else 0)"
  using occurrences_upd [OF assms, of k "(case w k of None \<Rightarrow> [] | Some l \<Rightarrow> l) @ [rank]" r]
    occurrences_waiters [OF assms, of r k]
  by simp

lemma register_finite: "finite (dom w) \<Longrightarrow> finite (dom (register rank ks w))"
  by (induction ks arbitrary: w) simp_all

lemma occurrences_register:
  "finite (dom w) \<Longrightarrow>
   occurrences (register rank ks w) r = occurrences w r + (if r = rank then length ks else 0)"
proof (induction ks arbitrary: w)
  case Nil
  then show ?case by simp
next
  case (Cons k ks)
  define w' where "w' = w(k \<mapsto> (case w k of None \<Rightarrow> [] | Some l \<Rightarrow> l) @ [rank])"
  have "finite (dom w')"
    using Cons.prems by (simp add: w'_def)
  then have "occurrences (register rank ks w') r =
             occurrences w' r + (if r = rank then length ks else 0)"
    by (rule Cons.IH)
  moreover have "occurrences w' r = occurrences w r + (if r = rank then 1 else 0)"
    unfolding w'_def using Cons.prems by (rule occurrences_push_back)
  moreover have "register rank (k # ks) w = register rank ks w'"
    by (simp add: w'_def)
  ultimately show ?case by simp
qed

lemma counters_match_init: "counters_match (StoreDeamon_init n)"
  by (simp add: counters_match_def StoreDeamon_init_def occurrences_def)

lemma counters_match_SET:
  assumes inv: "counters_match s" and "qt req = SET" and q: "query rank req s = Inr (s', out)"
  shows "counters_match s'"
proof -
  let ?k = "key req"
  have fin: "finite (dom (waiting s))"
    using inv by (simp add: counters_match_def)
  have s': "waiting s' = (waiting s)(?k := None)"
    "keys_awaited s' = fst (wake (waiters s ?k) (keys_awaited s))"
    using q assms(2) by (auto simp: query_SET_eq)
  have "unat (keys_awaited s' ! r) = occurrences (waiting s') r"
    if r: "r < length (keys_awaited s)" for r
  proof -
    let ?c = "count_list (waiters s ?k) r"
    have occ: "occurrences (waiting s) r = occurrences (waiting s') r + ?c"
      using occurrences_waiters [OF fin, of r ?k] s' by (simp add: waiters_def)
    have "unat (keys_awaited s ! r) = occurrences (waiting s) r"
      using inv r by (simp add: counters_match_def)
    then have "?c \<le> unat (keys_awaited s ! r)"
      using occ by simp
    then have "unat (keys_awaited s ! r - of_nat ?c) = unat (keys_awaited s ! r) - ?c"
      by (rule unat_sub_of_nat)
    then show ?thesis
      using r s' occ \<open>unat (keys_awaited s ! r) = occurrences (waiting s) r\<close>
      by (simp add: wake_nth)
  qed
  then show ?thesis
    using fin s' by (simp add: counters_match_def wake_length)
qed

lemma counters_match_WAIT:
  assumes inv: "counters_match s" and "qt req = WAIT"
    and rank: "rank < length (keys_awaited s)"
    and zero: "keys_awaited s ! rank = 0"
    and fits: "length (keys req) < 2 ^ LENGTH('a)"
    and q: "query rank req s = Inr (s', out)"
  shows "counters_match (s' :: 'a::len word StoreDeamon)"
proof (cases "[k \<leftarrow> keys req. store s k = None] = []")
  case True
  then have "s' = s"
    using q assms(2) by (simp add: query_WAIT_eq)
  then show ?thesis using inv by simp
next
  case False
  let ?ks = "[k \<leftarrow> keys req. store s k = None]"
  have fin: "finite (dom (waiting s))"
    using inv by (simp add: counters_match_def)
  have s': "waiting s' = register rank ?ks (waiting s)"
    "keys_awaited s' = (keys_awaited s)[rank := of_nat (length ?ks)]"
    using q assms(2) False by (auto simp: query_WAIT_eq)
  have "length ?ks \<le> length (keys req)"
    by simp
  then have "length ?ks < 2 ^ LENGTH('a)"
    using fits by (rule le_less_trans)
  then have new: "unat (of_nat (length ?ks) :: 'a word) = length ?ks"
    by (simp add: unat_of_nat)
  have "unat (keys_awaited s ! rank) = occurrences (waiting s) rank"
    using inv rank by (simp add: counters_match_def)
  then have "occurrences (waiting s) rank = 0"
    using zero by simp
  then have "unat (keys_awaited s' ! r) = occurrences (waiting s') r"
    if "r < length (keys_awaited s)" for r
    using that inv new s' rank
    by (simp add: occurrences_register [OF fin] nth_list_update counters_match_def)
  then show ?thesis
    using fin s' by (simp add: counters_match_def register_finite)
qed

lemma counters_match_query:
  assumes "counters_match s" and "rank < length (keys_awaited s)"
    and "qt req = WAIT \<longrightarrow> keys_awaited s ! rank = 0 \<and> length (keys req) < 2 ^ LENGTH('a)"
    and "query rank req s = Inr (s', out)"
  shows "counters_match (s' :: 'a::len word StoreDeamon)"
proof -
  consider "qt req = SET" | "qt req = GET" | "qt req = WAIT"
    | "qt req \<noteq> SET" "qt req \<noteq> GET" "qt req \<noteq> WAIT"
    by blast
  then show ?thesis
  proof cases
    case 1
    with assms show ?thesis by (blast intro: counters_match_SET)
  next
    case 2
    with assms have "s' = s" by (auto simp: query_GET_eq split: option.splits)
    with assms show ?thesis by simp
  next
    case 3
    with assms show ?thesis by (blast intro: counters_match_WAIT)
  next
    case 4
    with assms show ?thesis by (simp add: query_other)
  qed
qed

text \<open>
  Claim C9. The counter of every connection equals the number of occurrences of the
  connection in all waiter lists: this holds in the state the constructor builds, and
  every request that \<^verbatim>\<open>query\<close> processes without throwing preserves it, provided that a
  WAIT comes only from a connection whose counter is zero (it has no WAIT outstanding) and
  names fewer keys than the counter type has values.
\<close>

theorem counters_match_invariant:
  "counters_match (StoreDeamon_init world_size :: 'a::len word StoreDeamon) \<and>
   (\<forall>(s :: 'a word StoreDeamon) rank req s' out.
      counters_match s \<and> rank < length (keys_awaited s) \<and>
      (qt req = WAIT \<longrightarrow> keys_awaited s ! rank = 0 \<and> length (keys req) < 2 ^ LENGTH('a)) \<and>
      query rank req s = Inr (s', out) \<longrightarrow> counters_match s')"
  using counters_match_init counters_match_query by blast

theorem counters_match_invariant_witness:
  "counters_match example_deamon \<and> 0 < length (keys_awaited example_deamon) \<and>
   qt (WAIT_request [''a'', ''c'']) = WAIT \<and> keys_awaited example_deamon ! 0 = 0 \<and>
   length (keys (WAIT_request [''a'', ''c''])) < 2 ^ LENGTH(64) \<and>
   (\<exists>s'. query 0 (WAIT_request [''a'', ''c'']) example_deamon = Inr (s', []) \<and>
         keys_awaited s' = [1, 1] \<and> counters_match s')"
proof -
  let ?req = "WAIT_request [''a'', ''c'']"
  have "occurrences [''b'' \<mapsto> [Suc 0]] r = (if r = 1 then 1 else 0)" for r
    by (simp add: occurrences_def)
  then have h1: "counters_match example_deamon"
    by (simp add: counters_match_def example_deamon_def less_Suc_eq numeral_2_eq_2)
  have h2: "0 < length (keys_awaited example_deamon)"
    by (simp add: example_deamon_def)
  have h3: "qt ?req = WAIT \<longrightarrow>
            keys_awaited example_deamon ! 0 = 0 \<and> length (keys ?req) < 2 ^ LENGTH(64)"
    by (simp add: WAIT_request_def example_deamon_def)
  have "\<exists>s'. query 0 ?req example_deamon = Inr (s', []) \<and> keys_awaited s' = [1, 1]"
    by (simp add: query_def example_defs)
  then obtain s' where h4: "query 0 ?req example_deamon = Inr (s', [])"
    and h5: "keys_awaited s' = [1, 1]"
    by blast
  have "counters_match s'"
    using h1 h2 h3 h4 counters_match_invariant [where ?'a = 64] by blast
  then show ?thesis
    using h1 h2 h3 h4 h5 by (auto simp: WAIT_request_def)
qed

subsection \<open>One connection and its WAIT\<close>

lemma count_list_replicate: "count_list (replicate n x) y = (if x = y then n else 0)"
  by (induction n) auto

lemma length_filter_remove:
  "length [k \<leftarrow> ks. k \<in> P] =
   length [k \<leftarrow> ks. k \<in> P - {K}] + (if K \<in> P then count_list ks K else 0)"
  by (induction ks) auto

lemma pending_for_SET:
  assumes p: "pending_for s r ks P" and "qt req = SET" and q: "query rank req s = Inr (s', out)"
  shows "pending_for s' r ks (P - {key req}) \<and>
         count_list out (r, Value STOP_WAITING) = (if P \<noteq> {} \<and> P - {key req} = {} then 1 else 0)"
proof -
  let ?K = "key req"
  let ?c = "count_list (waiters s ?K) r"
  let ?n = "length [k \<leftarrow> ks. k \<in> P - {?K}]"
  have r: "r < length (keys_awaited s)" and P: "P \<subseteq> set ks"
    and c: "?c = (if ?K \<in> P then count_list ks ?K else 0)"
    and w: "\<And>k. count_list (waiters s k) r = (if k \<in> P then count_list ks k else 0)"
    and u: "unat (keys_awaited s ! r) = length [k \<leftarrow> ks. k \<in> P]"
    using p by (simp_all add: pending_for_def)
  have s': "waiting s' = (waiting s)(?K := None)"
    "keys_awaited s' = fst (wake (waiters s ?K) (keys_awaited s))"
    "out = snd (wake (waiters s ?K) (keys_awaited s))"
    using q assms(2) by (auto simp: query_SET_eq)
  have split: "unat (keys_awaited s ! r) = ?n + ?c"
    using u c length_filter_remove [of P ks ?K] by simp
  then have le: "?c \<le> unat (keys_awaited s ! r)"
    by simp
  have "unat (keys_awaited s' ! r) = unat (keys_awaited s ! r) - ?c"
    using r s' le by (simp add: wake_nth unat_sub_of_nat)
  then have u': "unat (keys_awaited s' ! r) = ?n"
    using split by simp
  have w': "count_list (waiters s' k) r = (if k \<in> P - {?K} then count_list ks k else 0)" for k
    using w [of k] s' by (simp add: waiters_def)
  have n0: "(?n = 0) = (P - {?K} = {})"
    using P by (auto simp: filter_empty_conv)
  have pos: "0 < count_list ks ?K" if "?K \<in> P"
  proof -
    have "?K \<in> set ks" using that P by blast
    then have "count_list ks ?K \<noteq> 0" by (simp add: count_list_0_iff)
    then show ?thesis by simp
  qed
  have "count_list out (r, Value STOP_WAITING) =
        length [j \<leftarrow> [1..<Suc ?c]. keys_awaited s ! r = of_nat j]"
    using r by (simp only: s' wake_sent_count)
  also have "\<dots> = (if 0 < ?c \<and> unat (keys_awaited s ! r) = ?c then 1 else 0)"
    using le by (rule zero_hits_no_wrap)
  also have "\<dots> = (if P \<noteq> {} \<and> P - {?K} = {} then 1 else 0)"
    using split c n0 pos by auto
  finally show ?thesis
    using r P u' w' s' by (auto simp: pending_for_def wake_length)
qed

lemma pending_for_WAIT:
  assumes p: "pending_for s r ks P" and "qt req = WAIT" and "rank \<noteq> r"
    and q: "query rank req s = Inr (s', out)"
  shows "pending_for s' r ks P \<and> count_list out (r, Value STOP_WAITING) = 0"
proof (cases "[k \<leftarrow> keys req. store s k = None] = []")
  case True
  then have "s' = s" "out = [(rank, Value STOP_WAITING)]"
    using q assms(2) by (simp_all add: query_WAIT_eq)
  then show ?thesis using p assms(3) by simp
next
  case False
  let ?ks = "[k \<leftarrow> keys req. store s k = None]"
  have s': "waiting s' = register rank ?ks (waiting s)"
    "keys_awaited s' = (keys_awaited s)[rank := of_nat (length ?ks)]" "out = []"
    using q assms(2) False by (auto simp: query_WAIT_eq)
  have "count_list (waiters s' k) r = count_list (waiters s k) r" for k
    using assms(3) s' by (simp add: waiters_def register_eq count_list_replicate)
  then show ?thesis
    using p s' assms(3) by (simp add: pending_for_def)
qed

lemma pending_for_query:
  assumes "pending_for s r ks P" and "rank = r \<longrightarrow> qt req \<noteq> WAIT"
    and "query rank req s = Inr (s', out)"
  shows "pending_for s' r ks (P - set_by req) \<and>
         count_list out (r, Value STOP_WAITING) = (if P \<noteq> {} \<and> P - set_by req = {} then 1 else 0)"
proof -
  consider "qt req = SET" | "qt req = GET" | "qt req = WAIT"
    | "qt req \<noteq> SET" "qt req \<noteq> GET" "qt req \<noteq> WAIT"
    by blast
  then show ?thesis
  proof cases
    case 1
    with assms pending_for_SET [of s r ks P req rank s' out] show ?thesis
      by (simp add: set_by_def)
  next
    case 2
    with assms have "s' = s" "out = [(rank, Vector (the (store s (key req))))]"
      by (auto simp: query_GET_eq split: option.splits)
    with assms 2 show ?thesis by (simp add: set_by_def SET_def GET_def)
  next
    case 3
    with assms pending_for_WAIT [of s r ks P req rank s' out] show ?thesis
      by (auto simp: set_by_def SET_def WAIT_def)
  next
    case 4
    with assms show ?thesis by (simp add: query_other)
  qed
qed

lemma keys_set_Cons: "keys_set ((q, rq) # reqs) = set_by rq \<union> keys_set reqs"
  by (auto simp: keys_set_def set_by_def)

lemma pending_for_queries:
  assumes "pending_for s r ks P"
    and "\<forall>(q, rq) \<in> set reqs. q = r \<longrightarrow> qt rq \<noteq> WAIT"
    and "queries reqs s = Inr (s', out)"
  shows "pending_for s' r ks (P - keys_set reqs) \<and>
         count_list out (r, Value STOP_WAITING) =
           (if P \<noteq> {} \<and> P - keys_set reqs = {} then 1 else 0)"
  using assms
proof (induction reqs arbitrary: s P out)
  case Nil
  then show ?case by (simp add: keys_set_def)
next
  case (Cons a reqs)
  obtain q rq where a: "a = (q, rq)" by (cases a)
  obtain s1 out1 where q1: "query q rq s = Inr (s1, out1)"
    using Cons.prems(3) a by (auto split: sum.splits)
  obtain out2 where q2: "queries reqs s1 = Inr (s', out2)" and out: "out = out1 @ out2"
    using Cons.prems(3) a q1 by (auto split: sum.splits)
  have step: "pending_for s1 r ks (P - set_by rq)"
    "count_list out1 (r, Value STOP_WAITING) = (if P \<noteq> {} \<and> P - set_by rq = {} then 1 else 0)"
    using pending_for_query [OF Cons.prems(1) _ q1] Cons.prems(2) a by auto
  have rest: "pending_for s' r ks (P - set_by rq - keys_set reqs)"
    "count_list out2 (r, Value STOP_WAITING) =
       (if P - set_by rq \<noteq> {} \<and> P - set_by rq - keys_set reqs = {} then 1 else 0)"
    using Cons.IH [OF step(1) _ q2] Cons.prems(2) by auto
  have "P - set_by rq - keys_set reqs = P - keys_set (a # reqs)"
    by (auto simp: a keys_set_Cons)
  then show ?case
    using step(2) rest out by auto
qed

lemma pending_for_registered:
  fixes s :: "'a::len word StoreDeamon"
  assumes r: "r < length (keys_awaited s)" and free: "\<forall>k. r \<notin> set (waiters s k)"
    and "qt req = WAIT" and absent: "[k \<leftarrow> keys req. store s k = None] \<noteq> []"
    and fits: "length (keys req) < 2 ^ LENGTH('a)"
  shows "\<exists>s1. query r req s = Inr (s1, []) \<and>
              pending_for s1 r [k \<leftarrow> keys req. store s k = None]
                {k \<in> set (keys req). store s k = None}"
proof -
  let ?ks = "[k \<leftarrow> keys req. store s k = None]"
  let ?s1 = "s\<lparr>waiting := register r ?ks (waiting s),
               keys_awaited := (keys_awaited s)[r := of_nat (length ?ks)]\<rparr>"
  have q: "query r req s = Inr (?s1, [])"
    using assms(3) absent by (simp add: query_WAIT_eq)
  have "length ?ks \<le> length (keys req)"
    by simp
  then have "length ?ks < 2 ^ LENGTH('a)"
    using fits by (rule le_less_trans)
  then have new: "unat (of_nat (length ?ks) :: 'a word) = length ?ks"
    by (simp add: unat_of_nat)
  have "count_list (waiters s k) r = 0" for k
    using free by (simp add: count_list_0_iff)
  then have w: "count_list (waiters ?s1 k) r = (if k \<in> set ?ks then count_list ?ks k else 0)" for k
    by (simp add: waiters_def register_eq count_list_replicate)
  have "[k \<leftarrow> ?ks. k \<in> set ?ks] = ?ks"
    by (rule filter_True) simp
  then have u: "unat (keys_awaited ?s1 ! r) = length [k \<leftarrow> ?ks. k \<in> set ?ks]"
    using r new by simp
  have "set ?ks = {k \<in> set (keys req). store s k = None}"
    by auto
  then have "pending_for ?s1 r ?ks {k \<in> set (keys req). store s k = None}"
    using r w u unfolding pending_for_def by (simp del: filter_filter set_filter)
  with q show ?thesis by blast
qed

text \<open>
  Claim C1. Let connection \<open>r\<close> stand in no waiter list, and let the coordinator process
  a WAIT of \<open>r\<close> that names at least one key absent from the store (and fewer keys than the
  counter type has values). Let further requests follow, none of them a WAIT of \<open>r\<close>, and
  be processed without \<^verbatim>\<open>query\<close> throwing. Then after any number \<open>n\<close> of these requests
  the number of STOP_WAITING messages sent to \<open>r\<close> so far is 1 if every key that was
  absent has been set among the \<open>n\<close> requests, and 0 otherwise. So the message is sent
  when the SET that makes the last awaited key present is processed, not while only a
  part of the keys has been set, and never a second time.
\<close>

theorem STOP_WAITING_exactly_once:
  fixes s :: "'a::len word StoreDeamon"
  assumes "r < length (keys_awaited s)"
    and "\<forall>k. r \<notin> set (waiters s k)"
    and "qt req = WAIT"
    and "[k \<leftarrow> keys req. store s k = None] \<noteq> []"
    and "length (keys req) < 2 ^ LENGTH('a)"
    and "\<forall>(q, rq) \<in> set reqs. q = r \<longrightarrow> qt rq \<noteq> WAIT"
    and "queries ((r, req) # reqs) s = Inr (s', out)"
  shows "\<forall>n. \<exists>s'' out'.
           queries ((r, req) # take n reqs) s = Inr (s'', out') \<and>
           count_list out' (r, Value STOP_WAITING) =
             (if {k \<in> set (keys req). store s k = None} \<subseteq> keys_set (take n reqs) then 1 else 0)"
proof
  fix n
  let ?P = "{k \<in> set (keys req). store s k = None}"
  obtain s1 where q1: "query r req s = Inr (s1, [])"
    and p1: "pending_for s1 r [k \<leftarrow> keys req. store s k = None] ?P"
    using pending_for_registered [OF assms(1-5)] by blast
  have "queries reqs s1 = Inr (s', out)"
    using assms(7) q1 by (auto split: sum.splits)
  then obtain s'' out' where q2: "queries (take n reqs) s1 = Inr (s'', out')"
    using queries_take by blast
  have "\<forall>(q, rq) \<in> set (take n reqs). q = r \<longrightarrow> qt rq \<noteq> WAIT"
    using assms(6) by (auto dest: in_set_takeD)
  from pending_for_queries [OF p1 this q2]
  have "count_list out' (r, Value STOP_WAITING) =
          (if ?P \<noteq> {} \<and> ?P - keys_set (take n reqs) = {} then 1 else 0)"
    by blast
  moreover have "?P \<noteq> {}"
    using assms(4) by (auto simp: filter_empty_conv)
  moreover have "queries ((r, req) # take n reqs) s = Inr (s'', out')"
    using q1 q2 by simp
  ultimately show "\<exists>s'' out'.
           queries ((r, req) # take n reqs) s = Inr (s'', out') \<and>
           count_list out' (r, Value STOP_WAITING) =
             (if ?P \<subseteq> keys_set (take n reqs) then 1 else 0)"
    by (auto simp: Diff_eq_empty_iff)
qed

theorem STOP_WAITING_exactly_once_witness:
  "0 < length (keys_awaited (StoreDeamon_init 2 :: 64 word StoreDeamon)) \<and>
   (\<forall>k. 0 \<notin> set (waiters (StoreDeamon_init 2 :: 64 word StoreDeamon) k)) \<and>
   qt (WAIT_request [''A'', ''B'']) = WAIT \<and>
   [k \<leftarrow> keys (WAIT_request [''A'', ''B'']).
      store (StoreDeamon_init 2 :: 64 word StoreDeamon) k = None] \<noteq> [] \<and>
   length (keys (WAIT_request [''A'', ''B''])) < 2 ^ LENGTH(64) \<and>
   0 \<notin> fst ` set example_requests \<and>
   (\<exists>s' out. queries ((0, WAIT_request [''A'', ''B'']) # example_requests)
      (StoreDeamon_init 2 :: 64 word StoreDeamon) = Inr (s', out)) \<and>
   (\<forall>n. \<exists>s'' out'.
      queries ((0, WAIT_request [''A'', ''B'']) # take n example_requests)
        (StoreDeamon_init 2 :: 64 word StoreDeamon) = Inr (s'', out') \<and>
      count_list out' (0, Value STOP_WAITING) =
        (if {k \<in> set (keys (WAIT_request [''A'', ''B''])).
               store (StoreDeamon_init 2 :: 64 word StoreDeamon) k = None}
            \<subseteq> keys_set (take n example_requests) then 1 else 0))"
proof -
  let ?s = "StoreDeamon_init 2 :: 64 word StoreDeamon"
  let ?req = "WAIT_request [''A'', ''B'']"
  have h1: "0 < length (keys_awaited ?s)"
    by (simp add: StoreDeamon_init_def)
  have h2: "\<forall>k. 0 \<notin> set (waiters ?s k)"
    by (simp add: StoreDeamon_init_def waiters_def)
  have h3: "qt ?req = WAIT"
    by (simp add: WAIT_request_def)
  have h4: "[k \<leftarrow> keys ?req. store ?s k = None] \<noteq> []"
    by (simp add: WAIT_request_def StoreDeamon_init_def)
  have h5: "length (keys ?req) < 2 ^ LENGTH(64)"
    by (simp add: WAIT_request_def)
  have silent: "0 \<notin> fst ` set example_requests"
    by (simp add: example_requests_def)
  then have h6: "\<forall>(q, rq) \<in> set example_requests. q = 0 \<longrightarrow> qt rq \<noteq> WAIT"
    by force
  have "\<exists>s' out. queries ((0, ?req) # example_requests) ?s = Inr (s', out)"
    by (simp add: example_requests_def query_def example_defs numeral_2_eq_2)
  then obtain s' out where h7: "queries ((0, ?req) # example_requests) ?s = Inr (s', out)"
    by blast
  show ?thesis
    using h1 h2 h3 h4 h5 silent h7 STOP_WAITING_exactly_once [OF h1 h2 h3 h4 h5 h6 h7]
    by blast
qed

text \<open>The run of the example: nothing after the first SET, the wake-up at the second.\<close>

lemma example_run:
  "(\<exists>s'. queries ((0, WAIT_request [''A'', ''B'']) # take 1 example_requests)
      (StoreDeamon_init 2 :: 64 word StoreDeamon) = Inr (s', [])) \<and>
   (\<exists>s'. queries ((0, WAIT_request [''A'', ''B'']) # take 2 example_requests)
      (StoreDeamon_init 2 :: 64 word StoreDeamon) = Inr (s', [(0, Value STOP_WAITING)])) \<and>
   (\<exists>s'. queries ((0, WAIT_request [''A'', ''B'']) # example_requests)
      (StoreDeamon_init 2 :: 64 word StoreDeamon) = Inr (s', [(0, Value STOP_WAITING)]))"
  by (simp add: example_requests_def query_def example_defs numeral_2_eq_2)

subsection \<open>get on a key that is not set\<close>

lemma query_sent_to_other:
  assumes "query q rq s = Inr (s', out)" and "q \<noteq> r" and "(r, m) \<in> set out"
  shows "m = Value STOP_WAITING"
proof -
  consider "qt rq = SET" | "qt rq = GET" | "qt rq = WAIT"
    | "qt rq \<noteq> SET" "qt rq \<noteq> GET" "qt rq \<noteq> WAIT"
    by blast
  then show ?thesis
  proof cases
    case 1
    then have "out = snd (wake (waiters s (key rq)) (keys_awaited s))"
      using assms(1) by (auto simp: query_SET_eq)
    then have "snd (r, m) \<in> {Value STOP_WAITING}"
      using assms(3) wake_sent_values [of "waiters s (key rq)" "keys_awaited s"] by blast
    then show ?thesis by simp
  next
    case 2
    with assms show ?thesis by (auto simp: query_GET_eq split: option.splits)
  next
    case 3
    with assms show ?thesis by (auto simp: query_WAIT_eq split: if_splits)
  next
    case 4
    with assms show ?thesis by (simp add: query_other)
  qed
qed

lemma queries_sent_to_other:
  assumes "queries reqs s = Inr (s', out)" and "\<forall>(q, rq) \<in> set reqs. q \<noteq> r"
    and "(r, m) \<in> set out"
  shows "m = Value STOP_WAITING"
  using assms
proof (induction reqs arbitrary: s out)
  case Nil
  then show ?case by simp
next
  case (Cons a reqs)
  obtain q rq where a: "a = (q, rq)" by (cases a)
  obtain s1 out1 where q1: "query q rq s = Inr (s1, out1)"
    using Cons.prems(1) a by (auto split: sum.splits)
  obtain out2 where q2: "queries reqs s1 = Inr (s', out2)" and out: "out = out1 @ out2"
    using Cons.prems(1) a q1 by (auto split: sum.splits)
  have "q \<noteq> r" using Cons.prems(2) a by simp
  then show ?case
    using Cons.prems(2,3) out query_sent_to_other [OF q1 _, of r m] Cons.IH [OF q2]
    by auto
qed

text \<open>
  Claim C6, as amended. \<^verbatim>\<open>Store::get\<close> calls \<^verbatim>\<open>wait({key})\<close> before it sends GET. While
  the coordinator's loop runs, let a participant that has nothing unread on its socket
  and stands in no waiter list call \<open>get(k)\<close> for a key \<open>k\<close> that is not in the store. The
  call does not fail: the coordinator processes the WAIT without throwing, registers the
  connection and sends nothing, so the call is blocked in the \<^verbatim>\<open>recv\<close> of \<^verbatim>\<open>wait\<close>, no GET
  is sent and the loop goes on. Whatever requests the other connections send afterwards,
  as long as none of them sets \<open>k\<close> and \<^verbatim>\<open>query\<close> does not throw, nothing is written to
  the socket of the blocked participant.
\<close>

theorem get_missing_key_blocks:
  fixes g :: "'a::len word group"
  assumes "\<not> finished g" and "unread g rank = []"
    and "store (coordinator g) k = None"
    and "rank < length (keys_awaited (coordinator g))"
    and "\<forall>k'. rank \<notin> set (waiters (coordinator g) k')"
  shows "\<exists>g'. Store_get rank k g = (Blocked, g') \<and> \<not> finished g' \<and> unread g' = unread g \<and>
           query rank (WAIT_request [k]) (coordinator g) = Inr (coordinator g', []) \<and>
           (\<forall>reqs s' out.
              (\<forall>(q, rq) \<in> set reqs. q \<noteq> rank) \<and> k \<notin> keys_set reqs \<and>
              queries reqs (coordinator g') = Inr (s', out) \<longrightarrow> rank \<notin> fst ` set out)"
proof -
  let ?req = "WAIT_request [k]"
  have wait: "qt ?req = WAIT" and absent: "[k' \<leftarrow> keys ?req. store (coordinator g) k' = None] = [k]"
    using assms(3) by (simp_all add: WAIT_request_def)
  have fits: "length (keys ?req) < 2 ^ LENGTH('a)"
    using one_less_power [of "2::nat" "LENGTH('a)"] by (simp add: WAIT_request_def)
  obtain s1 where q1: "query rank ?req (coordinator g) = Inr (s1, [])"
    and p1: "pending_for s1 rank [k' \<leftarrow> keys ?req. store (coordinator g) k' = None]
               {k' \<in> set (keys ?req). store (coordinator g) k' = None}"
    using pending_for_registered [OF assms(4,5) wait _ fits] absent by auto
  have P: "{k' \<in> set (keys ?req). store (coordinator g) k' = None} = {k}"
    using assms(3) by (auto simp: WAIT_request_def)
  let ?g' = "g\<lparr>coordinator := s1\<rparr>"
  have sub: "submit rank ?req g = ?g'"
    using assms(1) q1 by (simp add: submit_def)
  then have get: "Store_get rank k g = (Blocked, ?g')"
    using assms(2) by (simp add: Store_get_def Store_wait_def)
  have "rank \<notin> fst ` set out"
    if silent: "\<forall>(q, rq) \<in> set reqs. q \<noteq> rank" and unset: "k \<notin> keys_set reqs"
      and run: "queries reqs s1 = Inr (s', out)" for reqs s' out
  proof
    assume "rank \<in> fst ` set out"
    then obtain m where m: "(rank, m) \<in> set out" by auto
    then have "m = Value STOP_WAITING"
      using queries_sent_to_other [OF run silent] by blast
    then have "count_list out (rank, Value STOP_WAITING) \<noteq> 0"
      using m by (simp add: count_list_0_iff)
    moreover have "\<forall>(q, rq) \<in> set reqs. q = rank \<longrightarrow> qt rq \<noteq> WAIT"
      using silent by auto
    from pending_for_queries [OF p1 this run]
    have "count_list out (rank, Value STOP_WAITING) = 0"
      using unset P by auto
    ultimately show False by simp
  qed
  then show ?thesis
    using get assms(1) q1 by (intro exI [of _ ?g']) auto
qed

theorem get_missing_key_blocks_witness:
  "\<not> finished example_group \<and> unread example_group 0 = [] \<and>
   store (coordinator example_group) ''c'' = None \<and>
   0 < length (keys_awaited (coordinator example_group)) \<and>
   (\<forall>k'. 0 \<notin> set (waiters (coordinator example_group) k')) \<and>
   (\<exists>g'. Store_get 0 ''c'' example_group = (Blocked, g') \<and> \<not> finished g' \<and>
         unread g' = unread example_group \<and>
         query 0 (WAIT_request [''c'']) (coordinator example_group) = Inr (coordinator g', []) \<and>
         (\<forall>reqs s' out.
            (\<forall>(q, rq) \<in> set reqs. q \<noteq> 0) \<and> ''c'' \<notin> keys_set reqs \<and>
            queries reqs (coordinator g') = Inr (s', out) \<longrightarrow> 0 \<notin> fst ` set out))"
proof -
  have h1: "\<not> finished example_group" and h2: "unread example_group 0 = []"
    and h3: "store (coordinator example_group) ''c'' = None"
    and h4: "0 < length (keys_awaited (coordinator example_group))"
    and h5: "\<forall>k'. 0 \<notin> set (waiters (coordinator example_group) k')"
    by (simp_all add: example_group_def example_deamon_def waiters_def)
  show ?thesis
    by (intro conjI h1 h2 h3 h4 h5 get_missing_key_blocks [OF h1 h2 h3 h4 h5])
qed

text \<open>
  The claim C6 as it was stated says that the call fails. With two participants and an
  empty store, \<open>get\<close> of participant 1 on the key \<open>k\<close>, which nobody sets, is blocked and
  has not failed, the loop has not been left, and participant 0 is served afterwards:
  its \<open>set\<close> and \<open>get\<close> on another key return the value.
\<close>

theorem get_missing_key_counterexample:
  "fst (Store_get 1 ''k'' (group_init 2 :: 64 word group)) = Blocked \<and>
   \<not> finished (snd (Store_get 1 ''k'' (group_init 2 :: 64 word group))) \<and>
   fst (Store_get 0 ''x''
         (Store_set 0 ''x'' ''1'' (snd (Store_get 1 ''k'' (group_init 2 :: 64 word group))))) =
     Returned ''1''"
  by (simp add: Store_get_def Store_wait_def Store_set_def submit_def query_def example_defs
      numeral_2_eq_2)

end
